theory Spec2Isabelle
  imports Complex_Main
begin

section \<open>The command buffer of CNC Server (src/src/cncserver.queue.js)\<close>

text \<open>
  The module keeps an ordered buffer of pending device commands: \<open>buffer.data\<close> holds the
  hashes of the items (newest first, items are taken from the far end), \<open>buffer.dataSet\<close>
  maps each hash to its item. \<open>cncserver.pen\<close> is the pen state at the tip of the buffer,
  \<open>cncserver.actualPen\<close> the pen state of the last item run by the machine.

  JavaScript objects are shared by reference and \<open>util._extend\<close> copies one level of
  properties only, so objects live in an explicit store and values refer to them by address.
\<close>

subsection \<open>JavaScript values\<close>

text \<open>
  Numbers are modelled exactly: a finite number is a rational, next to \<open>NaN\<close> and the two
  infinities; negative zero is identified with zero.
\<close>

datatype jsnum = Fin rat | NaN | PosInf | NegInf

type_synonym addr = nat

datatype val =
    VUndef
  | VNull
  | VBool bool
  | VNum jsnum
  | VStr string
  | VRef addr
  | VFun nat

text \<open>An object is its own properties; the store is the list of all objects allocated so far,
  the address of an object being its index.\<close>

type_synonym obj = "string \<rightharpoonup> val"
type_synonym heap = "obj list"

datatype error = TypeError

definition obj_at :: "heap \<Rightarrow> addr \<Rightarrow> obj" where
  "obj_at h a = (if a < length h then h ! a else Map.empty)"

definition alloc :: "heap \<Rightarrow> obj \<Rightarrow> addr \<times> heap" where
  "alloc h ob = (length h, h @ [ob])"

text \<open>Reading \<open>v.k\<close>: a \<open>TypeError\<close> on \<open>undefined\<close> and \<open>null\<close>, \<open>undefined\<close> for a
  property that is absent (primitives and functions carry none of the properties read here).\<close>

definition get_prop :: "heap \<Rightarrow> val \<Rightarrow> string \<Rightarrow> error + val" where
  "get_prop h v k =
     (case v of
        VUndef \<Rightarrow> Inl TypeError
      | VNull \<Rightarrow> Inl TypeError
      | VRef a \<Rightarrow> Inr (case obj_at h a k of None \<Rightarrow> VUndef | Some w \<Rightarrow> w)
      | _ \<Rightarrow> Inr VUndef)"

text \<open>Reading \<open>v.k1.k2\<close> and so on along a list of property names.\<close>

fun get_path :: "heap \<Rightarrow> val \<Rightarrow> string list \<Rightarrow> error + val" where
  "get_path h v [] = Inr v"
| "get_path h v (k # ks) =
     (case get_prop h v k of Inl err \<Rightarrow> Inl err | Inr w \<Rightarrow> get_path h w ks)"

text \<open>The own properties that \<open>util._extend\<close> reads from its source: those of an object,
  none of anything else (\<open>null\<close>, \<open>undefined\<close>, primitives and functions are skipped).\<close>

definition props_of :: "heap \<Rightarrow> val \<Rightarrow> obj" where
  "props_of h v = (case v of VRef a \<Rightarrow> obj_at h a | _ \<Rightarrow> Map.empty)"

text \<open>\<open>extend({}, source)\<close>: a new object holding the property values of the source. A
  property value that is itself an object is copied as the same reference.\<close>

definition util_extend :: "heap \<Rightarrow> val \<Rightarrow> addr \<times> heap" where
  "util_extend h source = alloc h (props_of h source)"

subsection \<open>Sanitising the duration (lines 143 to 145)\<close>

text \<open>The duration argument is documented as an int; it may be left out or be \<open>null\<close>.\<close>

datatype duration_arg = DMissing | DNull | DNum jsnum

definition truthy_duration :: "duration_arg \<Rightarrow> bool" where
  "truthy_duration d =
     (case d of
        DMissing \<Rightarrow> False
      | DNull \<Rightarrow> False
      | DNum n \<Rightarrow> (case n of Fin x \<Rightarrow> x \<noteq> 0 | NaN \<Rightarrow> False | _ \<Rightarrow> True))"

text \<open>The leading decimal digit of a positive natural number, and the first significant digit
  of a fraction \<open>p / q\<close> below one.\<close>

fun lead_digit :: "nat \<Rightarrow> nat" where
  "lead_digit n = (if n < 10 then n else lead_digit (n div 10))"

function first_sig :: "nat \<Rightarrow> nat \<Rightarrow> nat" where
  "first_sig p q = (if 0 < p \<and> p < q then first_sig (10 * p) q else p div q)"
  by pat_completeness auto
termination
  by (relation "measure (\<lambda>(p, q). q - p)") auto

declare lead_digit.simps [simp del] first_sig.simps [simp del]

text \<open>
  \<open>parseInt\<close> of a number goes through its decimal string. From \<open>10^-6\<close> up to \<open>10^21\<close> the
  string is plain decimal notation and the integer part is read; outside, the string is in
  exponent notation (\<open>d.ddde+N\<close>) and only the leading digit is read. \<open>NaN\<close> and the
  infinities print as words, which parse to \<open>NaN\<close>.
\<close>

definition parseInt_num :: "jsnum \<Rightarrow> jsnum" where
  "parseInt_num n =
     (case n of
        Fin x \<Rightarrow>
          (let a = \<bar>x\<bar>; sg = (if x < 0 then - 1 else 1) in
           if x = 0 then Fin 0
           else if 1 / 10 ^ 6 \<le> a \<and> a < 10 ^ 21 then Fin (of_int (sg * \<lfloor>a\<rfloor>))
           else if 10 ^ 21 \<le> a then Fin (of_int (sg * int (lead_digit (nat \<lfloor>a\<rfloor>))))
           else Fin (of_int (sg * int (first_sig (nat (fst (quotient_of a)))
                                                 (nat (snd (quotient_of a)))))))
      | _ \<Rightarrow> NaN)"

definition parseInt :: "duration_arg \<Rightarrow> jsnum" where
  "parseInt d = (case d of DNum n \<Rightarrow> parseInt_num n | _ \<Rightarrow> NaN)"

definition Math_abs :: "jsnum \<Rightarrow> jsnum" where
  "Math_abs n = (case n of Fin x \<Rightarrow> Fin \<bar>x\<bar> | NaN \<Rightarrow> NaN | _ \<Rightarrow> PosInf)"

text \<open>The comparison \<open>n <= 0\<close>, false on \<open>NaN\<close>.\<close>

definition le_zero :: "jsnum \<Rightarrow> bool" where
  "le_zero n = (case n of Fin x \<Rightarrow> x \<le> 0 | NegInf \<Rightarrow> True | _ \<Rightarrow> False)"

text \<open>
  \<^verbatim>\<open>duration = !duration ? 1 : Math.abs(parseInt(duration));\<close>
  \<^verbatim>\<open>duration = duration <= 0 ? 1 : duration;\<close>
\<close>

definition sanitize_duration :: "duration_arg \<Rightarrow> jsnum" where
  "sanitize_duration duration =
     (let d1 = (if \<not> truthy_duration duration then Fin 1 else Math_abs (parseInt duration))
      in if le_zero d1 then Fin 1 else d1)"

subsection \<open>Buffer items, notifications and the state\<close>

record item =
  item_command :: val
  item_duration :: val
  item_pen :: val

text \<open>What \<open>buffer.render\<close> returns: the empty string it starts from, or an array.\<close>

datatype rendered = RStr string | RArr "val list"

text \<open>Everything the module sends out, in the order it is sent: messages to the runner
  process (\<open>cncserver.ipc\<close>), updates to the clients (\<open>cncserver.io\<close>), calls of a callback
  stored as a command, and the console. The receivers are code outside the module: a send or
  a call is recorded, returns, and does not call back into the buffer.

  \<open>io.sendBufferComplete()\<close> takes no argument: it sends the clients the whole buffer, which
  it reads from \<open>cncserver.buffer\<close>. Its event carries what it reads, the order array and the
  id map as they are at the call, so that what the clients are shown is part of the model.\<close>

datatype event =
    IpcSendMessage string
  | IpcBufferAdd string rendered val
  | IoSendBufferVars
  | IoSendBufferAdd item string
  | IoSendPenUpdate
  | IoSendBufferRemove
  | IoSendBufferComplete "string list" "string \<rightharpoonup> item"
  | IoSendMessageUpdate val
  | IoSendCallbackUpdate val
  | CallCommand nat
  | ConsoleLog "string option"
  | ConsoleError

record cncserver =
  heap :: heap
  pen :: val
  actualPen :: val
  dataSet :: "string \<rightharpoonup> item"
  data :: "string list"
  running :: bool
  paused :: bool
  newlyPaused :: bool
  pauseCallback :: val
  pausePen :: val
  out :: "event list"

definition emit :: "event \<Rightarrow> cncserver \<Rightarrow> cncserver" where
  "emit ev s = s\<lparr>out := out s @ [ev]\<rparr>"

text \<open>
  What the module uses and does not define: the hash of an item (\<open>cncserver.utils.getHash\<close>,
  a function of the item's content, so of the item and the store), the command templates of
  the bot (\<open>cncserver.bot.commands\<close>), the setting \<open>flipZToggleBit\<close>, the two helpers that
  compute the change of position and of height (they return an object, given here by its
  properties in order), and the conversion of a value to the string that replaces a
  placeholder.
\<close>

record env =
  getHash :: "heap \<Rightarrow> item \<Rightarrow> string"
  bot_commands :: "string \<rightharpoonup> string"
  flipZToggleBit :: bool
  getPosChangeData :: "heap \<Rightarrow> val \<Rightarrow> val \<Rightarrow> (string \<times> val) list"
  getHeightChangeData :: "heap \<Rightarrow> val \<Rightarrow> val \<Rightarrow> (string \<times> val) list"
  toStr :: "heap \<Rightarrow> val \<Rightarrow> string"

text \<open>\<open>!cncserver.bot.commands[name]\<close>: the template is absent or the empty string.\<close>

definition has_command :: "env \<Rightarrow> string \<Rightarrow> bool" where
  "has_command e name = (case bot_commands e name of None \<Rightarrow> False | Some t \<Rightarrow> t \<noteq> [])"

subsection \<open>Rendering (lines 208 to 300)\<close>

text \<open>\<open>out.replace(pat, rep)\<close> with a string pattern: the first occurrence is replaced.
  The replacement is inserted as it is (the \<open>$\<close> patterns of \<open>replace\<close>, which the text of
  a number never contains, are not expanded).\<close>

fun replace_first :: "string \<Rightarrow> string \<Rightarrow> string \<Rightarrow> string" where
  "replace_first pat rep [] = (if pat = [] then rep else [])"
| "replace_first pat rep (c # cs) =
     (if take (length pat) (c # cs) = pat then rep @ drop (length pat) (c # cs)
      else c # replace_first pat rep cs)"

definition cmdstr :: "env \<Rightarrow> heap \<Rightarrow> string \<Rightarrow> (string \<times> val) list \<Rightarrow> string" where
  "cmdstr e h name values =
     (if name = [] \<or> \<not> has_command e name then []
      else fold (\<lambda>(v, w) out. replace_first (CHR ''%'' # v) (toStr e h w) out)
                values (the (bot_commands e name)))"

definition render :: "env \<Rightarrow> heap \<Rightarrow> item \<Rightarrow> error + rendered" where
  "render e h it =
     (case item_command it of
        VNull \<Rightarrow> Inl TypeError
      | VRef a \<Rightarrow>
          (let c = obj_at h a;
               field = (\<lambda>k. case c k of None \<Rightarrow> VUndef | Some w \<Rightarrow> w) in
           if field ''type'' = VStr ''absmove'' then
             Inr (RArr [VStr (cmdstr e h ''movexy''
                               (getPosChangeData e h (field ''source'') (VRef a)))])
           else if field ''type'' = VStr ''absheight'' then
             (let hChange = getHeightChangeData e h (field ''source'') (field ''z'');
                  d = (case map_of hChange ''d'' of None \<Rightarrow> VUndef | Some w \<Rightarrow> w);
                  movez = [VStr (cmdstr e h ''movez'' [(''z'', field ''z'')])];
                  togglez =
                    (if has_command e ''togglez''
                     then [VStr (cmdstr e h ''togglez''
                             [(''t'', VNum (Fin (if flipZToggleBit e then 1 else 0)))])]
                     else [])
              in Inr (RArr (movez @ togglez @ [VStr (cmdstr e h ''wait'' [(''d'', d)])])))
           else Inr (RStr []))
      | c \<Rightarrow> Inr (RArr [c]))"

subsection \<open>Pause, resume, toggle (lines 36 to 56)\<close>

definition pause :: "cncserver \<Rightarrow> cncserver" where
  "pause s = emit IoSendBufferVars (emit (IpcSendMessage ''buffer.pause'') (s\<lparr>paused := True\<rparr>))"

definition resume :: "cncserver \<Rightarrow> cncserver" where
  "resume s =
     emit IoSendBufferVars (emit (IpcSendMessage ''buffer.resume'') (s\<lparr>paused := False\<rparr>))"

definition toggle :: "bool \<Rightarrow> cncserver \<Rightarrow> cncserver" where
  "toggle setPause s =
     (if setPause \<and> \<not> paused s then pause s
      else if \<not> setPause \<and> paused s then resume s
      else s)"

subsection \<open>Adding and removing items (lines 59 to 101)\<close>

definition addItem :: "env \<Rightarrow> item \<Rightarrow> cncserver \<Rightarrow> (error \<times> cncserver) + cncserver" where
  "addItem e it s =
     (let hash = getHash e (heap s) it;
          s1 = s\<lparr>data := hash # data s, dataSet := (dataSet s)(hash \<mapsto> it)\<rparr>
      in case render e (heap s1) it of
           Inl err \<Rightarrow> Inl (err, s1)
         | Inr commands \<Rightarrow>
             Inr (emit (IoSendBufferAdd it hash)
                   (emit (IpcBufferAdd hash commands (item_duration it)) s1)))"

definition trigger :: "item \<Rightarrow> cncserver \<Rightarrow> (error \<times> cncserver) + (bool \<times> cncserver)" where
  "trigger it s =
     (case item_command it of
        VFun f \<Rightarrow> Inr (True, emit (CallCommand f) s)
      | VNull \<Rightarrow> Inl (TypeError, s)
      | VRef a \<Rightarrow>
          (let c = obj_at (heap s) a;
               field = (\<lambda>k. case c k of None \<Rightarrow> VUndef | Some w \<Rightarrow> w) in
           if field ''type'' = VStr ''message''
             then Inr (True, emit (IoSendMessageUpdate (field ''message'')) s)
           else if field ''type'' = VStr ''callbackname''
             then Inr (True, emit (IoSendCallbackUpdate (field ''name'')) s)
           else Inr (False, s))
      | _ \<Rightarrow> Inr (False, s))"

text \<open>
  \<open>data.pop()\<close> takes the last hash, \<open>undefined\<close> when there is none; \<open>if (hash)\<close> is false
  on \<open>undefined\<close> and on the empty string. Reading \<open>item.pen\<close> throws when \<open>dataSet\<close> has no
  entry for the hash.
\<close>

definition removeItem :: "cncserver \<Rightarrow> (error \<times> cncserver) + cncserver" where
  "removeItem s =
     (let hash = (if data s = [] then None else Some (last (data s)));
          s1 = emit (ConsoleLog hash) (s\<lparr>data := butlast (data s)\<rparr>)
      in case hash of
           None \<Rightarrow> Inr (emit ConsoleError s1)
         | Some h \<Rightarrow>
             if h = [] then Inr (emit ConsoleError s1)
             else
               (case dataSet s1 h of
                  None \<Rightarrow> Inl (TypeError, s1)
                | Some it \<Rightarrow>
                    (let (a, hp) = util_extend (heap s1) (item_pen it);
                         s2 = emit IoSendPenUpdate (s1\<lparr>heap := hp, actualPen := VRef a\<rparr>)
                     in case trigger it s2 of
                          Inl err \<Rightarrow> Inl err
                        | Inr (r, s3) \<Rightarrow>
                            Inr (emit IoSendBufferRemove
                                  (s3\<lparr>dataSet := (dataSet s3)(h := None)\<rparr>)))))"

subsection \<open>Clearing (lines 106 to 118)\<close>

text \<open>The module assigns \<open>buffer.clear\<close> twice; the second function replaces the first
  (which left \<open>dataSet\<close> alone) before anything can call it.\<close>

definition clear :: "cncserver \<Rightarrow> cncserver" where
  "clear s =
     (let s1 = s\<lparr>data := []\<rparr>;
          s2 = s1\<lparr>dataSet := Map.empty\<rparr>;
          (a, hp) = util_extend (heap s2) (actualPen s2);
          s3 = s2\<lparr>heap := hp, pen := VRef a\<rparr>;
          s4 = emit (IpcSendMessage ''buffer.clear'') s3
      in emit (IoSendBufferComplete (data s4) (dataSet s4)) s4)"

subsection \<open>Adding a command (lines 140 to 193)\<close>

text \<open>The \<open>switch\<close>: the command value, \<open>None\<close> where the function returns false.\<close>

definition run_switch ::
  "env \<Rightarrow> string \<Rightarrow> val \<Rightarrow> jsnum \<Rightarrow> cncserver \<Rightarrow> (error \<times> cncserver) + (val \<times> cncserver) option"
where
  "run_switch e command dat duration s =
     (if command = ''move'' then
        (case (get_prop (heap s) dat ''x'', get_prop (heap s) dat ''y'',
               get_prop (heap s) dat ''source'') of
           (Inr x, Inr y, Inr source) \<Rightarrow>
             (let (a, hp) = alloc (heap s)
                    [''type'' \<mapsto> VStr ''absmove'', ''x'' \<mapsto> x, ''y'' \<mapsto> y, ''source'' \<mapsto> source]
              in Inr (Some (VRef a, s\<lparr>heap := hp\<rparr>)))
         | _ \<Rightarrow> Inl (TypeError, s))
      else if command = ''height'' then
        (case (get_prop (heap s) dat ''z'', get_prop (heap s) dat ''source'',
               get_prop (heap s) (pen s) ''state'') of
           (Inr z, Inr source, Inr state) \<Rightarrow>
             (let (a, hp) = alloc (heap s)
                    [''type'' \<mapsto> VStr ''absheight'', ''z'' \<mapsto> z, ''source'' \<mapsto> source,
                     ''state'' \<mapsto> state]
              in Inr (Some (VRef a, s\<lparr>heap := hp\<rparr>)))
         | _ \<Rightarrow> Inl (TypeError, s))
      else if command = ''message'' then
        (let (a, hp) = alloc (heap s) [''type'' \<mapsto> VStr ''message'', ''message'' \<mapsto> dat]
         in Inr (Some (VRef a, s\<lparr>heap := hp\<rparr>)))
      else if command = ''callbackname'' then
        (let (a, hp) = alloc (heap s) [''type'' \<mapsto> VStr ''callbackname'', ''name'' \<mapsto> dat]
         in Inr (Some (VRef a, s\<lparr>heap := hp\<rparr>)))
      else if command = ''wait'' then
        (if \<not> has_command e ''wait'' then Inr None
         else Inr (Some (VStr (cmdstr e (heap s) ''wait'' [(''d'', VNum duration)]), s)))
      else if command = ''custom'' then Inr (Some (dat, s))
      else if command = ''callback'' then Inr (Some (dat, s))
      else Inr None)"

definition run ::
  "env \<Rightarrow> string \<Rightarrow> val \<Rightarrow> duration_arg \<Rightarrow> cncserver \<Rightarrow> (error \<times> cncserver) + (bool \<times> cncserver)"
where
  "run e command dat duration s =
     (let d = sanitize_duration duration
      in case run_switch e command dat d s of
           Inl err \<Rightarrow> Inl err
         | Inr None \<Rightarrow> Inr (False, s)
         | Inr (Some (c, s1)) \<Rightarrow>
             (let (a, hp) = util_extend (heap s1) (pen s1);
                  it = \<lparr>item_command = c, item_duration = VNum d, item_pen = VRef a\<rparr>
              in case addItem e it (s1\<lparr>heap := hp\<rparr>) of
                   Inl err \<Rightarrow> Inl err
                 | Inr s2 \<Rightarrow> Inr (True, s2)))"

text \<open>The command types \<open>run\<close> documents as supported.\<close>

definition supported :: "string set" where
  "supported =
     {''move'', ''height'', ''message'', ''callbackname'', ''wait'', ''custom'', ''callback''}"

subsection \<open>The initial buffer (lines 11 to 19) and sequences of calls\<close>

text \<open>The two pen states are set up by the server before the module is used.\<close>

definition initial :: "heap \<Rightarrow> val \<Rightarrow> val \<Rightarrow> cncserver" where
  "initial h p ap =
     \<lparr>heap = h, pen = p, actualPen = ap, dataSet = Map.empty, data = [],
      running = False, paused = False, newlyPaused = False,
      pauseCallback = VNull, pausePen = VNull, out = []\<rparr>"

text \<open>
  Modelled from the spec: the code that advances the intended pen state is not part of this
  module; the spec has it mutate the live pen state in place, which is the assignment
  \<open>target[k] = v\<close> on the object that \<open>cncserver.pen\<close> refers to (or on an object reached
  from it).
\<close>

definition set_prop :: "heap \<Rightarrow> val \<Rightarrow> string \<Rightarrow> val \<Rightarrow> error + heap" where
  "set_prop h target k v =
     (case target of
        VUndef \<Rightarrow> Inl TypeError
      | VNull \<Rightarrow> Inl TypeError
      | VRef a \<Rightarrow> Inr (if a < length h then h[a := (h ! a)(k \<mapsto> v)] else h)
      | _ \<Rightarrow> Inr h)"

definition setPen :: "string \<Rightarrow> val \<Rightarrow> cncserver \<Rightarrow> (error \<times> cncserver) + cncserver" where
  "setPen k v s =
     (case set_prop (heap s) (pen s) k v of
        Inl err \<Rightarrow> Inl (err, s)
      | Inr h \<Rightarrow> Inr (s\<lparr>heap := h\<rparr>))"

text \<open>
  Modelled from the spec: a mutation of the live pen state one level down, the assignment
  \<open>cncserver.pen[k1][k] = v\<close> to an object that the pen state refers to.
\<close>

definition setPenIn :: "string \<Rightarrow> string \<Rightarrow> val \<Rightarrow> cncserver \<Rightarrow> (error \<times> cncserver) + cncserver" where
  "setPenIn k1 k v s =
     (case get_prop (heap s) (pen s) k1 of
        Inl err \<Rightarrow> Inl (err, s)
      | Inr target \<Rightarrow>
          (case set_prop (heap s) target k v of
             Inl err \<Rightarrow> Inl (err, s)
           | Inr h \<Rightarrow> Inr (s\<lparr>heap := h\<rparr>)))"

text \<open>A sequence of calls stops at the first one that throws.\<close>

datatype op =
    Run string val duration_arg
  | AddItem item
  | RemoveItem
  | Clear
  | Pause
  | Resume
  | Toggle bool
  | SetPen string val

fun step :: "env \<Rightarrow> op \<Rightarrow> cncserver \<Rightarrow> (error \<times> cncserver) + cncserver" where
  "step e (Run command dat duration) s =
     (case run e command dat duration s of Inl err \<Rightarrow> Inl err | Inr (r, s') \<Rightarrow> Inr s')"
| "step e (AddItem it) s = addItem e it s"
| "step e RemoveItem s = removeItem s"
| "step e Clear s = Inr (clear s)"
| "step e Pause s = Inr (pause s)"
| "step e Resume s = Inr (resume s)"
| "step e (Toggle setPause) s = Inr (toggle setPause s)"
| "step e (SetPen k v) s = setPen k v s"

fun exec :: "env \<Rightarrow> op list \<Rightarrow> cncserver \<Rightarrow> (error \<times> cncserver) + cncserver" where
  "exec e [] s = Inr s"
| "exec e (x # xs) s = (case step e x s of Inl err \<Rightarrow> Inl err | Inr s' \<Rightarrow> exec e xs s')"

text \<open>A reference is valid when the object it names has been allocated.\<close>

definition valid_ref :: "heap \<Rightarrow> val \<Rightarrow> bool" where
  "valid_ref h v = (case v of VRef a \<Rightarrow> a < length h | _ \<Rightarrow> True)"

text \<open>The order array and the id map agree: no hash is listed twice, and the hashes listed
  are the keys of the map.\<close>

definition consistent :: "cncserver \<Rightarrow> bool" where
  "consistent s \<longleftrightarrow> distinct (data s) \<and> dom (dataSet s) = set (data s)"

text \<open>The flags and the pause storage of the buffer are the same in two states.\<close>

definition same_control :: "cncserver \<Rightarrow> cncserver \<Rightarrow> bool" where
  "same_control s s' \<longleftrightarrow>
     running s' = running s \<and> paused s' = paused s \<and> newlyPaused s' = newlyPaused s \<and>
     pauseCallback s' = pauseCallback s \<and> pausePen s' = pausePen s"


subsection \<open>A small configuration to evaluate the definitions on\<close>

text \<open>A bot without command templates, and a hash that reads the command of the item: the
  string itself, or the \<open>type\<close> of a detailed command object.\<close>

definition sample_hash :: "heap \<Rightarrow> item \<Rightarrow> string" where
  "sample_hash h it =
     (case item_command it of
        VStr c \<Rightarrow> c
      | VRef a \<Rightarrow> (case obj_at h a ''type'' of Some (VStr t) \<Rightarrow> t | _ \<Rightarrow> ''object'')
      | _ \<Rightarrow> ''other'')"

definition sample_env :: env where
  "sample_env =
     \<lparr>getHash = sample_hash, bot_commands = Map.empty, flipZToggleBit = False,
      getPosChangeData = (\<lambda>h source c. []), getHeightChangeData = (\<lambda>h source z. []),
      toStr = (\<lambda>h v. [])\<rparr>"

text \<open>The pen up at the origin; the confirmed state is an object of its own.\<close>

definition sample_pen :: obj where
  "sample_pen = [''x'' \<mapsto> VNum (Fin 0), ''y'' \<mapsto> VNum (Fin 0), ''state'' \<mapsto> VStr ''up'']"

definition sample_start :: cncserver where
  "sample_start = initial [sample_pen, sample_pen] (VRef 0) (VRef 1)"

text \<open>An item as \<open>run\<close> builds it for a custom command.\<close>

definition sample_item :: item where
  "sample_item =
     \<lparr>item_command = VStr ''SM,100,0,0'', item_duration = VNum (Fin 100), item_pen = VRef 0\<rparr>"


text \<open>A pen state that keeps its position in an object of its own.\<close>

definition nested_start :: cncserver where
  "nested_start =
     initial
       [[''pos'' \<mapsto> VRef 1, ''state'' \<mapsto> VStr ''up''],
        [''x'' \<mapsto> VNum (Fin 0), ''y'' \<mapsto> VNum (Fin 0)],
        [''pos'' \<mapsto> VRef 3, ''state'' \<mapsto> VStr ''up''],
        [''x'' \<mapsto> VNum (Fin 0), ''y'' \<mapsto> VNum (Fin 0)]]
       (VRef 0) (VRef 2)"

section \<open>Properties\<close>

lemmas eval_defs = sample_start_def initial_def sample_env_def sample_hash_def sample_pen_def
  run_def run_switch_def get_prop_def has_command_def cmdstr_def
  addItem_def render_def removeItem_def trigger_def emit_def util_extend_def alloc_def
  clear_def pause_def resume_def toggle_def setPen_def set_prop_def
  props_of_def obj_at_def Let_def

lemmas dur_defs = sanitize_duration_def truthy_duration_def parseInt_def parseInt_num_def
  Math_abs_def le_zero_def

subsection \<open>The store\<close>

lemma obj_at_append_old: "a < length h \<Longrightarrow> obj_at (h @ hs) a = obj_at h a"
  by (simp add: obj_at_def nth_append)

lemma obj_at_append_new: "obj_at (h @ [ob]) (length h) = ob"
  by (simp add: obj_at_def)

lemma props_of_append_old: "valid_ref h v \<Longrightarrow> props_of (h @ hs) v = props_of h v"
  by (cases v) (simp_all add: props_of_def valid_ref_def obj_at_append_old)

lemma props_of_new: "props_of (h @ [ob]) (VRef (length h)) = ob"
  by (simp add: props_of_def obj_at_append_new)

subsection \<open>The duration\<close>

lemma lead_digit_pos: "1 \<le> n \<Longrightarrow> 1 \<le> lead_digit n"
proof (induction n rule: lead_digit.induct)
  case (1 n)
  show ?case
  proof (cases "n < 10")
    case True
    with "1.prems" show ?thesis by (simp add: lead_digit.simps)
  next
    case False
    then have "1 \<le> n div 10" by simp
    with False "1.IH" have "1 \<le> lead_digit (n div 10)" by simp
    with False show ?thesis by (subst lead_digit.simps) simp
  qed
qed

lemma first_sig_pos: "0 < p \<Longrightarrow> 0 < q \<Longrightarrow> 1 \<le> first_sig p q"
proof (induction p q rule: first_sig.induct)
  case (1 p q)
  show ?case
  proof (cases "p < q")
    case True
    with "1.prems" "1.IH" have "1 \<le> first_sig (10 * p) q" by simp
    with True "1.prems" show ?thesis by (subst first_sig.simps) simp
  next
    case False
    then have "q \<le> p" by simp
    with "1.prems" have "1 \<le> p div q"
      by (simp add: div_greater_zero_iff Suc_le_eq)
    with False show ?thesis by (subst first_sig.simps) simp
  qed
qed

lemma sanitize_missing:
  "sanitize_duration DMissing = Fin 1" "sanitize_duration DNull = Fin 1"
  "sanitize_duration (DNum (Fin 0)) = Fin 1" "sanitize_duration (DNum NaN) = Fin 1"
  by (simp_all add: sanitize_duration_def truthy_duration_def le_zero_def)

lemma sanitize_decimal:
  assumes "1 / 10 ^ 6 \<le> \<bar>x\<bar>" and "\<bar>x\<bar> < 10 ^ 21"
  shows "sanitize_duration (DNum (Fin x)) = Fin (of_int (max 1 \<lfloor>\<bar>x\<bar>\<rfloor>))"
proof -
  from assms(1) have nz: "x \<noteq> 0" by auto
  have fl: "0 \<le> \<lfloor>\<bar>x\<bar>\<rfloor>" by simp
  have p: "parseInt (DNum (Fin x)) = Fin (of_int ((if x < 0 then - 1 else 1) * \<lfloor>\<bar>x\<bar>\<rfloor>))"
    using assms nz by (simp add: parseInt_def parseInt_num_def Let_def)
  have a: "Math_abs (parseInt (DNum (Fin x))) = Fin (of_int \<lfloor>\<bar>x\<bar>\<rfloor>)"
    using fl by (simp add: p Math_abs_def abs_mult)
  show ?thesis
  proof (cases "\<lfloor>\<bar>x\<bar>\<rfloor> = 0")
    case True
    with nz a show ?thesis
      by (simp add: sanitize_duration_def truthy_duration_def le_zero_def)
  next
    case False
    with fl have "1 \<le> \<lfloor>\<bar>x\<bar>\<rfloor>" by linarith
    with nz a show ?thesis
      by (simp add: sanitize_duration_def truthy_duration_def le_zero_def max_def)
  qed
qed

lemma sanitize_finite:
  "\<exists>n. 1 \<le> n \<and> sanitize_duration (DNum (Fin x)) = Fin (of_int n)"
proof (cases "x = 0")
  case True
  then have "sanitize_duration (DNum (Fin x)) = Fin (of_int 1)" by (simp add: sanitize_missing)
  then show ?thesis by (metis order_refl)
next
  case nz: False
  show ?thesis
  proof (cases "1 / 10 ^ 6 \<le> \<bar>x\<bar> \<and> \<bar>x\<bar> < 10 ^ 21")
    case True
    then have "sanitize_duration (DNum (Fin x)) = Fin (of_int (max 1 \<lfloor>\<bar>x\<bar>\<rfloor>))"
      by (simp add: sanitize_decimal)
    moreover have "1 \<le> max 1 \<lfloor>\<bar>x\<bar>\<rfloor>" by simp
    ultimately show ?thesis by blast
  next
    case False
    define k where "k = (if 10 ^ 21 \<le> \<bar>x\<bar> then lead_digit (nat \<lfloor>\<bar>x\<bar>\<rfloor>)
       else first_sig (nat (fst (quotient_of \<bar>x\<bar>))) (nat (snd (quotient_of \<bar>x\<bar>))))"
    have k1: "1 \<le> k"
    proof (cases "10 ^ 21 \<le> \<bar>x\<bar>")
      case True
      moreover have "(1::rat) \<le> 10 ^ 21" by simp
      ultimately have "1 \<le> \<bar>x\<bar>" by (rule order_trans [rotated])
      then have "1 \<le> \<lfloor>\<bar>x\<bar>\<rfloor>" by simp
      then have "1 \<le> nat \<lfloor>\<bar>x\<bar>\<rfloor>" by linarith
      then have "1 \<le> lead_digit (nat \<lfloor>\<bar>x\<bar>\<rfloor>)" by (rule lead_digit_pos)
      with True show ?thesis by (simp add: k_def)
    next
      case F: False
      have "0 < \<bar>x\<bar>" using nz by simp
      moreover have "0 < Fract (fst (quotient_of \<bar>x\<bar>)) (snd (quotient_of \<bar>x\<bar>))
          \<longleftrightarrow> 0 < fst (quotient_of \<bar>x\<bar>)"
        by (rule zero_less_Fract_iff [OF quotient_of_denom_pos'])
      ultimately have "0 < fst (quotient_of \<bar>x\<bar>)"
        by simp
      moreover have "0 < snd (quotient_of \<bar>x\<bar>)" by (rule quotient_of_denom_pos')
      ultimately have "1 \<le> first_sig (nat (fst (quotient_of \<bar>x\<bar>))) (nat (snd (quotient_of \<bar>x\<bar>)))"
        by (intro first_sig_pos) simp_all
      with F show ?thesis by (simp add: k_def)
    qed
    have p: "parseInt (DNum (Fin x)) = Fin (of_int ((if x < 0 then - 1 else 1) * int k))"
      using False nz by (auto simp: parseInt_def parseInt_num_def Let_def k_def)
    have a: "Math_abs (parseInt (DNum (Fin x))) = Fin (of_int (int k))"
      by (simp add: p Math_abs_def abs_mult)
    have "sanitize_duration (DNum (Fin x)) = Fin (of_int (int k))"
      using nz a k1 by (simp add: sanitize_duration_def truthy_duration_def le_zero_def)
    with k1 show ?thesis by (metis of_nat_1 of_nat_le_iff)
  qed
qed

subsection \<open>What one call does\<close>

lemma run_switch_None:
  "run_switch e command dat d s = Inr None \<longleftrightarrow>
     command \<notin> supported \<or> (command = ''wait'' \<and> \<not> has_command e ''wait'')"
  by (auto simp: run_switch_def supported_def alloc_def split: sum.splits)

lemma run_switch_Some:
  assumes "run_switch e command dat d s = Inr (Some (c, s1))"
  shows "s1 = s\<lparr>heap := heap s1\<rparr> \<and> (heap s1 = heap s \<or> (\<exists>ob. heap s1 = heap s @ [ob]))"
  using assms
  by (auto simp: run_switch_def alloc_def split: if_splits sum.splits)

lemma render_null: "render e h it = Inr cmds \<Longrightarrow> item_command it \<noteq> VNull"
  by (auto simp: render_def)

lemma render_not_null: "item_command it \<noteq> VNull \<Longrightarrow> \<exists>cmds. render e h it = Inr cmds"
  by (auto simp: render_def Let_def split: val.splits)

lemma addItem_Inr:
  assumes "addItem e it s = Inr s'"
  shows "\<exists>cmds. render e (heap s) it = Inr cmds \<and>
           s' = s\<lparr>dataSet := (dataSet s)(getHash e (heap s) it \<mapsto> it),
                  data := getHash e (heap s) it # data s,
                  out := out s @ [IpcBufferAdd (getHash e (heap s) it) cmds (item_duration it),
                                  IoSendBufferAdd it (getHash e (heap s) it)]\<rparr>"
  using assms
  by (auto simp: addItem_def emit_def Let_def split: sum.splits)

lemma addItem_not_null:
  assumes "item_command it \<noteq> VNull"
  shows "\<exists>s'. addItem e it s = Inr s'"
proof -
  from render_not_null [OF assms] obtain cmds where "render e (heap s) it = Inr cmds" by blast
  then show ?thesis by (simp add: addItem_def Let_def)
qed

lemma run_True:
  assumes "run e command dat duration s = Inr (True, s')"
  shows "\<exists>c h1. (h1 = heap s \<or> (\<exists>ob. h1 = heap s @ [ob])) \<and> c \<noteq> VNull \<and>
           heap s' = h1 @ [props_of h1 (pen s)] \<and>
           data s' = getHash e (heap s')
                       \<lparr>item_command = c, item_duration = VNum (sanitize_duration duration),
                          item_pen = VRef (length h1)\<rparr> # data s \<and>
           dataSet s' = (dataSet s)(hd (data s') \<mapsto>
                       \<lparr>item_command = c, item_duration = VNum (sanitize_duration duration),
                          item_pen = VRef (length h1)\<rparr>) \<and>
           pen s' = pen s \<and> actualPen s' = actualPen s \<and> same_control s s'"
proof -
  let ?d = "sanitize_duration duration"
  from assms obtain c s1 where sw: "run_switch e command dat ?d s = Inr (Some (c, s1))"
    by (auto simp: run_def Let_def split: sum.splits option.splits)
  let ?h1 = "heap s1"
  let ?it = "\<lparr>item_command = c, item_duration = VNum ?d, item_pen = VRef (length ?h1)\<rparr>"
  let ?s1 = "s1\<lparr>heap := ?h1 @ [props_of ?h1 (pen s1)]\<rparr>"
  from run_switch_Some [OF sw]
  have s1: "s1 = s\<lparr>heap := ?h1\<rparr>" and h1: "?h1 = heap s \<or> (\<exists>ob. ?h1 = heap s @ [ob])"
    by blast+
  from assms sw have add: "addItem e ?it ?s1 = Inr s'"
    by (auto simp: run_def Let_def util_extend_def alloc_def split: sum.splits)
  from addItem_Inr [OF add] obtain cmds where r: "render e (heap ?s1) ?it = Inr cmds"
    and s': "s' = ?s1\<lparr>dataSet := (dataSet ?s1)(getHash e (heap ?s1) ?it \<mapsto> ?it),
                  data := getHash e (heap ?s1) ?it # data ?s1,
                  out := out ?s1 @ [IpcBufferAdd (getHash e (heap ?s1) ?it) cmds (item_duration ?it),
                                  IoSendBufferAdd ?it (getHash e (heap ?s1) ?it)]\<rparr>"
    by blast
  from render_null [OF r] have c: "c \<noteq> VNull" by simp
  have f1: "pen s1 = pen s" "actualPen s1 = actualPen s" "data s1 = data s"
    "dataSet s1 = dataSet s" "same_control s s1"
    by (subst s1, simp add: same_control_def)+
  have "heap s' = ?h1 @ [props_of ?h1 (pen s)]"
    by (subst s') (simp add: f1)
  moreover have "data s' = getHash e (heap s') ?it # data s"
    by (subst (1 2) s') (simp add: f1)
  moreover have "dataSet s' = (dataSet s)(hd (data s') \<mapsto> ?it)"
    by (subst (1 2) s') (simp add: f1)
  moreover have "pen s' = pen s" "actualPen s' = actualPen s"
    by (subst s', simp add: f1)+
  moreover have "same_control s s'"
    using f1(5) by (subst s') (simp add: same_control_def)
  ultimately show ?thesis using h1 c by blast
qed

lemma run_False:
  "run e command dat duration s = Inr (False, s') \<longleftrightarrow>
     s' = s \<and> run_switch e command dat (sanitize_duration duration) s = Inr None"
  by (auto simp: run_def Let_def split: sum.splits option.splits prod.splits)

lemma run_throws:
  assumes "command = ''move'' \<or> command = ''height''" and "dat = VUndef \<or> dat = VNull"
  shows "run e command dat duration s = Inl (TypeError, s)"
proof -
  from assms(2) have g: "\<And>k. get_prop (heap s) dat k = Inl TypeError"
    by (auto simp: get_prop_def)
  from assms(1) show ?thesis
  proof
    assume "command = ''move''"
    then show ?thesis by (simp add: run_def run_switch_def g)
  next
    assume "command = ''height''"
    then show ?thesis by (simp add: run_def run_switch_def g)
  qed
qed

lemma trigger_ok:
  assumes "item_command it \<noteq> VNull"
  shows "\<exists>r evs. trigger it s = Inr (r, s\<lparr>out := out s @ evs\<rparr>)"
proof -
  have same: "Inr (False, s) = Inr (False, s\<lparr>out := out s @ []\<rparr>)" by simp
  show ?thesis
  proof (cases "item_command it")
    case (VRef a)
    let ?ty = "case obj_at (heap s) a ''type'' of None \<Rightarrow> VUndef | Some w \<Rightarrow> w"
    consider "?ty = VStr ''message''"
      | "?ty \<noteq> VStr ''message''" "?ty = VStr ''callbackname''"
      | "?ty \<noteq> VStr ''message''" "?ty \<noteq> VStr ''callbackname''" by blast
    then show ?thesis
    proof cases
      case 1
      with VRef show ?thesis by (simp add: trigger_def emit_def Let_def) blast
    next
      case 2
      with VRef show ?thesis by (simp add: trigger_def emit_def Let_def) blast
    next
      case 3
      with VRef have "trigger it s = Inr (False, s)" by (simp add: trigger_def Let_def)
      with same show ?thesis by metis
    qed
  next
    case (VFun f)
    then show ?thesis by (simp add: trigger_def emit_def) blast
  next
    case VNull
    with assms show ?thesis by simp
  next
    case VUndef
    then have "trigger it s = Inr (False, s)" by (simp add: trigger_def)
    with same show ?thesis by metis
  next
    case (VBool b)
    then have "trigger it s = Inr (False, s)" by (simp add: trigger_def)
    with same show ?thesis by metis
  next
    case (VNum n)
    then have "trigger it s = Inr (False, s)" by (simp add: trigger_def)
    with same show ?thesis by metis
  next
    case (VStr x)
    then have "trigger it s = Inr (False, s)" by (simp add: trigger_def)
    with same show ?thesis by metis
  qed
qed

lemma removeItem_found:
  assumes "data s \<noteq> []" and "last (data s) = h" and "h \<noteq> []"
    and "dataSet s h = Some it" and "item_command it \<noteq> VNull"
  shows "\<exists>s' evs. removeItem s = Inr s' \<and>
           heap s' = heap s @ [props_of (heap s) (item_pen it)] \<and>
           actualPen s' = VRef (length (heap s)) \<and>
           dataSet s' = (dataSet s)(h := None) \<and>
           data s' = butlast (data s) \<and>
           pen s' = pen s \<and> same_control s s' \<and>
           out s' = out s @ ConsoleLog (Some h) # IoSendPenUpdate # evs @ [IoSendBufferRemove]"
proof -
  define s2 where "s2 = emit IoSendPenUpdate
     ((emit (ConsoleLog (Some h)) (s\<lparr>data := butlast (data s)\<rparr>))
        \<lparr>heap := heap s @ [props_of (heap s) (item_pen it)], actualPen := VRef (length (heap s))\<rparr>)"
  obtain r evs where t: "trigger it s2 = Inr (r, s2\<lparr>out := out s2 @ evs\<rparr>)"
    using trigger_ok [OF assms(5)] by blast
  have ds: "dataSet (emit (ConsoleLog (Some h)) (s\<lparr>data := butlast (data s)\<rparr>)) h = Some it"
    and hp: "heap (emit (ConsoleLog (Some h)) (s\<lparr>data := butlast (data s)\<rparr>)) = heap s"
    using assms(4) by (simp_all add: emit_def)
  have "removeItem s =
      Inr (emit IoSendBufferRemove ((s2\<lparr>out := out s2 @ evs\<rparr>)\<lparr>dataSet := (dataSet (s2\<lparr>out := out s2 @ evs\<rparr>))(h := None)\<rparr>))"
    using assms(1-3) t ds hp
    by (simp add: removeItem_def util_extend_def alloc_def s2_def [symmetric])
  then show ?thesis
    by (simp add: emit_def s2_def same_control_def)
qed

lemma removeItem_empty:
  "data s = [] \<Longrightarrow> removeItem s = Inr (s\<lparr>out := out s @ [ConsoleLog None, ConsoleError]\<rparr>)"
  by (simp add: removeItem_def emit_def)

lemma removeItem_missing:
  "data s \<noteq> [] \<Longrightarrow> last (data s) \<noteq> [] \<Longrightarrow> dataSet s (last (data s)) = None \<Longrightarrow>
   removeItem s =
     Inl (TypeError, s\<lparr>data := butlast (data s), out := out s @ [ConsoleLog (Some (last (data s)))]\<rparr>)"
  by (simp add: removeItem_def emit_def)

lemma removeItem_null:
  assumes "data s \<noteq> []" and "last (data s) \<noteq> []"
    and "dataSet s (last (data s)) = Some it" and "item_command it = VNull"
  shows "\<exists>x. removeItem s = Inl x"
  using assms
  by (simp add: removeItem_def trigger_def emit_def util_extend_def alloc_def)

subsection \<open>Sequences of calls\<close>

lemma removeItem_falsy:
  "data s \<noteq> [] \<Longrightarrow> last (data s) = [] \<Longrightarrow>
   removeItem s = Inr (s\<lparr>data := butlast (data s), out := out s @ [ConsoleLog (Some []), ConsoleError]\<rparr>)"
  by (simp add: removeItem_def emit_def)

lemma removeItem_heap:
  assumes "removeItem s = Inr s'"
  shows "pen s' = pen s \<and> (heap s' = heap s \<or> (\<exists>ob. heap s' = heap s @ [ob]))"
proof (cases "data s = []")
  case True
  with assms show ?thesis by (auto simp: removeItem_empty)
next
  case ne: False
  show ?thesis
  proof (cases "last (data s) = []")
    case True
    with ne assms show ?thesis by (auto simp: removeItem_falsy)
  next
    case tr: False
    show ?thesis
    proof (cases "dataSet s (last (data s))")
      case None
      with ne tr assms show ?thesis by (simp add: removeItem_missing)
    next
      case (Some it)
      show ?thesis
      proof (cases "item_command it = VNull")
        case True
        from removeItem_null [OF ne tr Some True] assms show ?thesis by auto
      next
        case False
        from removeItem_found [OF ne refl tr Some False] assms show ?thesis by auto
      qed
    qed
  qed
qed

lemma setPen_Inr:
  assumes "setPen k v s = Inr s'"
  shows "pen s' = pen s \<and> length (heap s') = length (heap s) \<and>
         (\<forall>a. pen s \<noteq> VRef a \<longrightarrow> obj_at (heap s') a = obj_at (heap s) a)"
  using assms
  by (cases "pen s") (auto simp: setPen_def set_prop_def obj_at_def split: if_splits)

lemma step_keeps_object:
  assumes "step e x s = Inr s'" and "a < length (heap s)" and "pen s \<noteq> VRef a"
  shows "obj_at (heap s') a = obj_at (heap s) a \<and> a < length (heap s') \<and> pen s' \<noteq> VRef a"
proof (cases x)
  case (Run command dat duration)
  with assms(1) obtain r where r: "run e command dat duration s = Inr (r, s')"
    by (auto split: sum.splits)
  show ?thesis
  proof (cases r)
    case True
    with r have "run e command dat duration s = Inr (True, s')" by simp
    from run_True [OF this] obtain h1 where
      "h1 = heap s \<or> (\<exists>ob. h1 = heap s @ [ob])" "heap s' = h1 @ [props_of h1 (pen s)]"
      "pen s' = pen s" by blast
    with assms(2,3) show ?thesis by (auto simp: obj_at_append_old)
  next
    case False
    with r have "s' = s" by (simp add: run_False)
    with assms(2,3) show ?thesis by simp
  qed
next
  case (AddItem it)
  with assms(1) have "addItem e it s = Inr s'" by simp
  from addItem_Inr [OF this] have "heap s' = heap s" "pen s' = pen s" by auto
  with assms(2,3) show ?thesis by simp
next
  case RemoveItem
  with assms(1) have "removeItem s = Inr s'" by simp
  from removeItem_heap [OF this] assms(2,3) show ?thesis by (auto simp: obj_at_append_old)
next
  case Clear
  with assms(1) have "s' = clear s" by simp
  then have "heap s' = heap s @ [props_of (heap s) (actualPen s)]" "pen s' = VRef (length (heap s))"
    by (simp_all add: clear_def util_extend_def alloc_def emit_def)
  with assms(2,3) show ?thesis by (auto simp: obj_at_append_old)
next
  case Pause
  with assms show ?thesis by (auto simp: pause_def emit_def)
next
  case Resume
  with assms show ?thesis by (auto simp: resume_def emit_def)
next
  case (Toggle b)
  with assms(1) have "heap s' = heap s" "pen s' = pen s"
    by (auto simp: toggle_def pause_def resume_def emit_def split: if_splits)
  with assms(2,3) show ?thesis by simp
next
  case (SetPen k v)
  with assms(1) have "setPen k v s = Inr s'" by simp
  from setPen_Inr [OF this] assms(2,3) show ?thesis by auto
qed

lemma exec_keeps_object:
  "exec e xs s = Inr s' \<Longrightarrow> a < length (heap s) \<Longrightarrow> pen s \<noteq> VRef a \<Longrightarrow>
   obj_at (heap s') a = obj_at (heap s) a \<and> a < length (heap s') \<and> pen s' \<noteq> VRef a"
proof (induction xs arbitrary: s)
  case Nil
  then show ?case by simp
next
  case (Cons x xs)
  from Cons.prems(1) obtain s1 where 1: "step e x s = Inr s1" and 2: "exec e xs s1 = Inr s'"
    by (auto split: sum.splits)
  from step_keeps_object [OF 1 Cons.prems(2,3)]
  have k: "obj_at (heap s1) a = obj_at (heap s) a" "a < length (heap s1)" "pen s1 \<noteq> VRef a"
    by auto
  from Cons.IH [OF 2 k(2,3)] k(1) show ?case by simp
qed







lemma run_snapshot:
  assumes "run e command dat duration s = Inr (True, s1)" and "valid_ref (heap s) (pen s)"
  shows "\<exists>it a. dataSet s1 (hd (data s1)) = Some it \<and> item_pen it = VRef a
           \<and> item_command it \<noteq> VNull
           \<and> a < length (heap s1) \<and> pen s1 \<noteq> VRef a \<and> pen s \<noteq> VRef a
           \<and> obj_at (heap s1) a = props_of (heap s) (pen s)"
proof -
  from run_True [OF assms(1)] obtain c h1 where
    h1: "h1 = heap s \<or> (\<exists>ob. h1 = heap s @ [ob])" and c: "c \<noteq> VNull"
    and hp: "heap s1 = h1 @ [props_of h1 (pen s)]"
    and ds: "dataSet s1 = (dataSet s)(hd (data s1) \<mapsto>
                       \<lparr>item_command = c, item_duration = VNum (sanitize_duration duration),
                          item_pen = VRef (length h1)\<rparr>)"
    and p: "pen s1 = pen s"
    by blast
  let ?it = "\<lparr>item_command = c, item_duration = VNum (sanitize_duration duration),
                          item_pen = VRef (length h1)\<rparr>"
  from h1 have len: "length (heap s) \<le> length h1" by auto
  from h1 assms(2) have same: "props_of h1 (pen s) = props_of (heap s) (pen s)"
    by (auto simp: props_of_append_old)
  from assms(2) len have ne: "pen s \<noteq> VRef (length h1)"
    by (auto simp: valid_ref_def)
  have "dataSet s1 (hd (data s1)) = Some ?it" by (subst ds) simp
  moreover have "item_pen ?it = VRef (length h1)" "item_command ?it \<noteq> VNull" using c by simp_all
  moreover have "length h1 < length (heap s1)" by (simp add: hp)
  moreover have "obj_at (heap s1) (length h1) = props_of (heap s) (pen s)"
    by (simp add: hp obj_at_append_new same)
  ultimately show ?thesis using ne p by metis
qed

lemma clear_fields:
  "heap (clear s) = heap s @ [props_of (heap s) (actualPen s)]"
  "pen (clear s) = VRef (length (heap s))"
  "actualPen (clear s) = actualPen s"
  "data (clear s) = []"
  "dataSet (clear s) = Map.empty"
  "same_control s (clear s)"
  "out (clear s) = out s @ [IpcSendMessage ''buffer.clear'', IoSendBufferComplete [] Map.empty]"
  by (simp_all add: clear_def util_extend_def alloc_def emit_def same_control_def)

lemma props_of_append_one: "props_of (h @ [props_of h v]) v = props_of h v"
proof (cases v)
  case (VRef a)
  then show ?thesis by (auto simp: props_of_def obj_at_def nth_append)
qed (simp_all add: props_of_def)






subsection \<open>Pause and resume\<close>

text \<open>
  C9 (as stated, fails). Calling \<open>pause()\<close> twice does not give the same outbound
  notifications as calling it once: the second call sends them again.
\<close>

theorem pause_twice_repeats_notifications:
  "out (pause (pause sample_start)) \<noteq> out (pause sample_start)"
  by (simp add: pause_def emit_def)

text \<open>
  C9 (amended). A second \<open>pause()\<close> changes nothing but the notifications, which it sends
  once more (the message \<open>buffer.pause\<close> to the runner and the buffer variables to the
  clients); the same holds for \<open>resume()\<close>. The call that does nothing when the buffer is
  already in the state asked for is \<open>toggle\<close>.
\<close>

theorem pause_resume_repeat:
  "pause (pause s) =
     (pause s)\<lparr>out := out (pause s) @ [IpcSendMessage ''buffer.pause'', IoSendBufferVars]\<rparr>
   \<and> resume (resume s) =
     (resume s)\<lparr>out := out (resume s) @ [IpcSendMessage ''buffer.resume'', IoSendBufferVars]\<rparr>
   \<and> (paused s \<longrightarrow> toggle True s = s)
   \<and> (\<not> paused s \<longrightarrow> toggle False s = s)"
  by (simp add: pause_def resume_def toggle_def emit_def)

theorem pause_resume_repeat_witness:
  "paused (pause sample_start) \<and> toggle True (pause sample_start) = pause sample_start
   \<and> \<not> paused sample_start \<and> toggle False sample_start = sample_start"
  using pause_resume_repeat [of "pause sample_start"] pause_resume_repeat [of sample_start]
  by (simp add: pause_def emit_def sample_start_def initial_def)

subsection \<open>Clearing\<close>

text \<open>
  C6. After \<open>buffer.clear()\<close>, from any state, the order array and the id map are both
  empty, the confirmed pen state is the one from before the call, and the intended pen state is
  a new object with the property values that the confirmed pen state had before the call: every
  property read from it gives what the confirmed pen state gave. Nothing else changes. The
  message to the runner and the full update to the clients are sent after that, and the
  buffer that the update shows the clients is the empty one.
\<close>

theorem clear_empties_and_resets_pen:
  "data (clear s) = [] \<and> dataSet (clear s) = Map.empty
   \<and> actualPen (clear s) = actualPen s
   \<and> props_of (heap (clear s)) (actualPen (clear s)) = props_of (heap s) (actualPen s)
   \<and> pen (clear s) = VRef (length (heap s))
   \<and> props_of (heap (clear s)) (pen (clear s)) = props_of (heap s) (actualPen s)
   \<and> (\<forall>a k. actualPen s = VRef a \<longrightarrow>
         get_prop (heap (clear s)) (pen (clear s)) k = get_prop (heap s) (actualPen s) k)
   \<and> (\<forall>b < length (heap s). obj_at (heap (clear s)) b = obj_at (heap s) b)
   \<and> same_control s (clear s)
   \<and> out (clear s) = out s @ [IpcSendMessage ''buffer.clear'', IoSendBufferComplete [] Map.empty]"
proof -
  note f = clear_fields [of s]
  have 1: "props_of (heap (clear s)) (actualPen (clear s)) = props_of (heap s) (actualPen s)"
    by (simp add: f(1,3) props_of_append_one)
  have 2: "props_of (heap (clear s)) (pen (clear s)) = props_of (heap s) (actualPen s)"
    by (simp add: f(1,2) props_of_new)
  have 3: "\<forall>a k. actualPen s = VRef a \<longrightarrow>
         get_prop (heap (clear s)) (pen (clear s)) k = get_prop (heap s) (actualPen s) k"
  proof (intro allI impI)
    fix a k assume a: "actualPen s = VRef a"
    have "obj_at (heap (clear s)) (length (heap s)) = obj_at (heap s) a"
      using 2 a by (simp add: f(2) props_of_def)
    then show "get_prop (heap (clear s)) (pen (clear s)) k = get_prop (heap s) (actualPen s) k"
      by (simp add: f(2) a get_prop_def)
  qed
  have 4: "\<forall>b < length (heap s). obj_at (heap (clear s)) b = obj_at (heap s) b"
    by (simp add: f(1) obj_at_append_old)
  from f(2-7) 1 2 3 4 show ?thesis by blast
qed

theorem clear_empties_and_resets_pen_witness:
  "\<exists>s. exec sample_env [SetPen ''x'' (VNum (Fin 7)), Run ''custom'' (VStr ''A'') DMissing]
          sample_start = Inr s
     \<and> data s = [''A''] \<and> actualPen s = VRef 1
     \<and> get_prop (heap s) (pen s) ''x'' = Inr (VNum (Fin 7))
     \<and> get_prop (heap s) (actualPen s) ''x'' = Inr (VNum (Fin 0))
     \<and> get_prop (heap (clear s)) (pen (clear s)) ''x'' = Inr (VNum (Fin 0))
     \<and> data (clear s) = [] \<and> dataSet (clear s) = Map.empty
     \<and> out (clear s) = out s @ [IpcSendMessage ''buffer.clear'', IoSendBufferComplete [] Map.empty]"
proof -
  obtain s where x: "exec sample_env [SetPen ''x'' (VNum (Fin 7)),
      Run ''custom'' (VStr ''A'') DMissing] sample_start = Inr s"
    by (simp add: eval_defs dur_defs)
  then have d: "data s = [''A'']" and a: "actualPen s = VRef 1"
    and p: "get_prop (heap s) (pen s) ''x'' = Inr (VNum (Fin 7))"
    and q: "get_prop (heap s) (actualPen s) ''x'' = Inr (VNum (Fin 0))"
    by (auto simp: eval_defs dur_defs)
  from clear_empties_and_resets_pen [of s] a q
  have "get_prop (heap (clear s)) (pen (clear s)) ''x'' = Inr (VNum (Fin 0))"
    and "data (clear s) = []" and "dataSet (clear s) = Map.empty"
    and "out (clear s) = out s @ [IpcSendMessage ''buffer.clear'', IoSendBufferComplete [] Map.empty]"
    by auto
  with x d a p q show ?thesis by blast
qed

subsection \<open>The duration stored by \<open>run\<close>\<close>

text \<open>
  C4 (as stated, fails). A negative duration is not stored as 1: \<open>Math.abs\<close> turns \<open>-5\<close>
  into 5, and 5 is what the item holds.
\<close>

theorem run_negative_duration_stored_positive:
  "(case run sample_env ''custom'' (VStr ''SM,100,0,0'') (DNum (Fin (- 5))) sample_start of
      Inr (r, s) \<Rightarrow> r \<and> map_option item_duration (dataSet s (hd (data s))) = Some (VNum (Fin 5))
                     \<and> map_option item_duration (dataSet s (hd (data s))) \<noteq> Some (VNum (Fin 1))
    | Inl x \<Rightarrow> False)"
  by (simp add: eval_defs dur_defs)

text \<open>
  C4 (amended). The item that a successful \<open>run\<close> stores holds the sanitised duration. It
  is 1 when the duration is missing, \<open>null\<close> or 0. For a number \<open>x\<close> with absolute value
  from \<open>10^-6\<close> up to \<open>10^21\<close>, negative or positive, it is the integer part of the
  absolute value of \<open>x\<close>, and 1 when that integer part is 0. For every duration other than
  the two infinities it is an integer of at least 1.
\<close>

theorem run_stores_sanitized_duration:
  assumes "run e command dat duration s = Inr (True, s')"
  shows "\<exists>it. dataSet s' (hd (data s')) = Some it \<and> data s' = hd (data s') # data s \<and>
           item_duration it = VNum (sanitize_duration duration) \<and>
           (duration \<in> {DMissing, DNull, DNum (Fin 0)} \<longrightarrow> item_duration it = VNum (Fin 1)) \<and>
           (\<forall>x. duration = DNum (Fin x) \<and> 1 / 10 ^ 6 \<le> \<bar>x\<bar> \<and> \<bar>x\<bar> < 10 ^ 21 \<longrightarrow>
                item_duration it = VNum (Fin (of_int (max 1 \<lfloor>\<bar>x\<bar>\<rfloor>)))) \<and>
           (duration \<notin> {DNum PosInf, DNum NegInf} \<longrightarrow>
                (\<exists>n. 1 \<le> n \<and> item_duration it = VNum (Fin (of_int n))))"
proof -
  from run_True [OF assms] obtain it where
    1: "dataSet s' (hd (data s')) = Some it" and 2: "data s' = hd (data s') # data s"
    and 3: "item_duration it = VNum (sanitize_duration duration)"
    by fastforce
  have 4: "duration \<in> {DMissing, DNull, DNum (Fin 0)} \<longrightarrow> item_duration it = VNum (Fin 1)"
    using 3 by (auto simp: sanitize_missing)
  have 5: "\<forall>x. duration = DNum (Fin x) \<and> 1 / 10 ^ 6 \<le> \<bar>x\<bar> \<and> \<bar>x\<bar> < 10 ^ 21 \<longrightarrow>
                item_duration it = VNum (Fin (of_int (max 1 \<lfloor>\<bar>x\<bar>\<rfloor>)))"
    using 3 by (auto simp: sanitize_decimal)
  have 6: "duration \<notin> {DNum PosInf, DNum NegInf} \<longrightarrow>
                (\<exists>n. 1 \<le> n \<and> item_duration it = VNum (Fin (of_int n)))"
  proof
    assume fin: "duration \<notin> {DNum PosInf, DNum NegInf}"
    have "\<exists>n. 1 \<le> n \<and> sanitize_duration duration = Fin (of_int n)"
    proof (cases duration)
      case DMissing
      then have "sanitize_duration duration = Fin (of_int 1)" by (simp add: sanitize_missing)
      then show ?thesis by (metis order_refl)
    next
      case DNull
      then have "sanitize_duration duration = Fin (of_int 1)" by (simp add: sanitize_missing)
      then show ?thesis by (metis order_refl)
    next
      case (DNum n)
      show ?thesis
      proof (cases n)
        case (Fin x)
        with DNum show ?thesis by (simp add: sanitize_finite)
      next
        case NaN
        with DNum have "sanitize_duration duration = Fin (of_int 1)" by (simp add: sanitize_missing)
        then show ?thesis by (metis order_refl)
      next
        case PosInf
        with DNum fin show ?thesis by simp
      next
        case NegInf
        with DNum fin show ?thesis by simp
      qed
    qed
    with 3 show "\<exists>n. 1 \<le> n \<and> item_duration it = VNum (Fin (of_int n))" by simp
  qed
  from 1 2 3 4 5 6 show ?thesis by blast
qed

theorem run_stores_sanitized_duration_witness:
  "\<exists>s'. run sample_env ''custom'' (VStr ''SM,100,0,0'') (DNum (Fin (- 5))) sample_start
            = Inr (True, s')
        \<and> (\<exists>it. dataSet s' (hd (data s')) = Some it \<and> item_duration it = VNum (Fin 5))"
proof -
  obtain s' where r: "run sample_env ''custom'' (VStr ''SM,100,0,0'') (DNum (Fin (- 5))) sample_start
            = Inr (True, s')"
    by (simp add: eval_defs)
  have "sanitize_duration (DNum (Fin (- 5))) = Fin 5" by (simp add: dur_defs)
  with run_stores_sanitized_duration [OF r] r show ?thesis by auto
qed

subsection \<open>When \<open>run\<close> returns false\<close>

text \<open>
  C7 (as stated, fails). \<open>wait\<close> is a supported command, yet \<open>run\<close> returns false for it
  when the bot has no \<open>wait\<close> template; and \<open>run\<close> does throw: \<open>move\<close> with \<open>undefined\<close>
  data reads \<open>data.x\<close>.
\<close>

theorem run_false_on_wait_and_throws_on_move:
  "run sample_env ''wait'' (VStr ''x'') (DNum (Fin 5)) sample_start = Inr (False, sample_start)
   \<and> ''wait'' \<in> supported
   \<and> map_sum fst fst (run sample_env ''move'' VUndef (DNum (Fin 5)) sample_start) = Inl TypeError"
  by (simp add: eval_defs supported_def)

text \<open>
  C7 (amended). \<open>run\<close> returns false exactly when the command is not one of the supported
  ones, or is \<open>wait\<close> and the bot has no \<open>wait\<close> template; and whenever it returns false,
  the state is the one it started from: nothing stored, nothing sent. It has no boundary
  for exceptions: \<open>move\<close> and \<open>height\<close> with \<open>undefined\<close> or \<open>null\<close> data throw a
  \<open>TypeError\<close>, from an unchanged state.
\<close>

theorem run_false_iff:
  "((\<exists>s'. run e command dat duration s = Inr (False, s')) \<longleftrightarrow>
      command \<notin> supported \<or> (command = ''wait'' \<and> \<not> has_command e ''wait''))
   \<and> (run e command dat duration s = Inr (False, s') \<longrightarrow> s' = s)
   \<and> ((command = ''move'' \<or> command = ''height'') \<and> (dat = VUndef \<or> dat = VNull) \<longrightarrow>
        run e command dat duration s = Inl (TypeError, s))"
proof -
  have 1: "(\<exists>s'. run e command dat duration s = Inr (False, s')) \<longleftrightarrow>
      command \<notin> supported \<or> (command = ''wait'' \<and> \<not> has_command e ''wait'')"
    by (simp add: run_False run_switch_None)
  have 2: "run e command dat duration s = Inr (False, s') \<longrightarrow> s' = s"
    by (simp add: run_False)
  have 3: "(command = ''move'' \<or> command = ''height'') \<and> (dat = VUndef \<or> dat = VNull) \<longrightarrow>
        run e command dat duration s = Inl (TypeError, s)"
    using run_throws by blast
  from 1 2 3 show ?thesis by blast
qed

theorem run_false_iff_witness:
  "''rotate'' \<notin> supported
   \<and> run sample_env ''rotate'' VUndef DMissing sample_start = Inr (False, sample_start)
   \<and> run sample_env ''move'' VUndef DMissing sample_start = Inl (TypeError, sample_start)"
proof -
  have 1: "''rotate'' \<notin> supported" by (simp add: supported_def)
  from run_false_iff [of sample_env "''rotate''" VUndef DMissing sample_start] 1
  obtain s' where r: "run sample_env ''rotate'' VUndef DMissing sample_start = Inr (False, s')"
    by blast
  from run_false_iff [of sample_env "''rotate''" VUndef DMissing sample_start s'] r
  have "s' = sample_start" by blast
  with r have 2: "run sample_env ''rotate'' VUndef DMissing sample_start = Inr (False, sample_start)"
    by simp
  from run_false_iff [of sample_env "''move''" VUndef DMissing sample_start]
  have 3: "run sample_env ''move'' VUndef DMissing sample_start = Inl (TypeError, sample_start)"
    by blast
  from 1 2 3 show ?thesis by blast
qed

subsection \<open>Adding an item whose hash is present\<close>

text \<open>
  C3 (as stated, fails). Adding an item whose hash is already in the store does not fail: the
  call succeeds, the hash is listed twice, and the order array and the id map no longer agree.
\<close>

theorem addItem_duplicate_accepted:
  "(case addItem sample_env sample_item sample_start of
      Inr s1 \<Rightarrow> sample_hash (heap s1) sample_item \<in> set (data s1)
        \<and> (case addItem sample_env sample_item s1 of
             Inr s2 \<Rightarrow> data s2 = [''SM,100,0,0'', ''SM,100,0,0''] \<and> \<not> consistent s2
           | Inl x \<Rightarrow> False)
    | Inl x \<Rightarrow> False)"
  by (simp add: eval_defs sample_item_def consistent_def)

text \<open>
  C3 (amended). \<open>addItem\<close> checks nothing: for every item that renders, it puts the hash
  at the new end of the order array and sets the entry of the id map, replacing an entry that
  is there. When the hash is not yet listed and the order array and the id map agree, they
  still agree afterwards.
\<close>

theorem addItem_no_duplicate_check:
  assumes "item_command it \<noteq> VNull"
  shows "\<exists>s'. addItem e it s = Inr s' \<and> data s' = getHash e (heap s) it # data s
           \<and> dataSet s' = (dataSet s)(getHash e (heap s) it \<mapsto> it)
           \<and> (consistent s \<and> getHash e (heap s) it \<notin> set (data s) \<longrightarrow> consistent s')"
proof -
  from addItem_not_null [OF assms] obtain s' where a: "addItem e it s = Inr s'" by blast
  from addItem_Inr [OF a] obtain cmds where
    s': "s' = s\<lparr>dataSet := (dataSet s)(getHash e (heap s) it \<mapsto> it),
                  data := getHash e (heap s) it # data s,
                  out := out s @ [IpcBufferAdd (getHash e (heap s) it) cmds (item_duration it),
                                  IoSendBufferAdd it (getHash e (heap s) it)]\<rparr>"
    by blast
  have d: "data s' = getHash e (heap s) it # data s"
    and m: "dataSet s' = (dataSet s)(getHash e (heap s) it \<mapsto> it)"
    by (subst s', simp)+
  have "consistent s \<and> getHash e (heap s) it \<notin> set (data s) \<longrightarrow> consistent s'"
    by (auto simp: consistent_def d m)
  with a d m show ?thesis by blast
qed

theorem addItem_no_duplicate_check_witness:
  "item_command sample_item \<noteq> VNull \<and> consistent sample_start
   \<and> getHash sample_env (heap sample_start) sample_item \<notin> set (data sample_start)
   \<and> (\<exists>s'. addItem sample_env sample_item sample_start = Inr s' \<and> consistent s'
          \<and> data s' = [''SM,100,0,0''])"
proof -
  have 1: "item_command sample_item \<noteq> VNull" by (simp add: sample_item_def)
  have 2: "consistent sample_start" by (simp add: consistent_def sample_start_def initial_def)
  have 3: "getHash sample_env (heap sample_start) sample_item \<notin> set (data sample_start)"
    by (simp add: sample_start_def initial_def)
  have 4: "getHash sample_env (heap sample_start) sample_item = ''SM,100,0,0''"
    by (simp add: sample_env_def sample_hash_def sample_item_def)
  have 5: "data sample_start = []" by (simp add: sample_start_def initial_def)
  from addItem_no_duplicate_check [OF 1, of sample_env sample_start] 1 2 3 4 5
  show ?thesis by auto
qed

subsection \<open>What a removal leaves alone\<close>

text \<open>
  C10. A removal that returns, from a buffer that is not empty and whose order array and id
  map agree, takes the oldest hash off the order array and its entry out of the id map, and
  sets the confirmed pen state to a new object. Every other entry, the order of the other
  hashes, the flags, the intended pen state and every object already in the store are as
  before.
\<close>

theorem removeItem_frame:
  assumes "removeItem s = Inr s'" and "data s \<noteq> []" and "last (data s) \<noteq> []"
    and "consistent s"
  shows "data s' = butlast (data s) \<and> dataSet s' = (dataSet s)(last (data s) := None)
       \<and> (\<forall>h \<in> set (data s'). dataSet s' h = dataSet s h)
       \<and> consistent s'
       \<and> same_control s s' \<and> pen s' = pen s
       \<and> actualPen s' = VRef (length (heap s))
       \<and> (\<forall>a < length (heap s). obj_at (heap s') a = obj_at (heap s) a)"
proof -
  let ?h = "last (data s)"
  from assms(2) have mem: "?h \<in> set (data s)" by simp
  with assms(4) obtain it where it: "dataSet s ?h = Some it"
    by (auto simp: consistent_def)
  have nn: "item_command it \<noteq> VNull"
  proof
    assume "item_command it = VNull"
    from removeItem_null [OF assms(2,3) it this] assms(1) show False by auto
  qed
  from removeItem_found [OF assms(2) refl assms(3) it nn] assms(1)
  have hp: "heap s' = heap s @ [props_of (heap s) (item_pen it)]"
    and ap: "actualPen s' = VRef (length (heap s))"
    and ds: "dataSet s' = (dataSet s)(?h := None)"
    and d: "data s' = butlast (data s)"
    and p: "pen s' = pen s" and sc: "same_control s s'"
    by auto
  from assms(4) have dist: "distinct (data s)" and dom: "dom (dataSet s) = set (data s)"
    by (simp_all add: consistent_def)
  from assms(2) have split: "data s = butlast (data s) @ [?h]" by simp
  from dist split have notin: "?h \<notin> set (butlast (data s))"
    by (metis distinct_append append_butlast_last_id assms(2) not_distinct_conv_prefix)
  have others: "\<forall>h \<in> set (data s'). dataSet s' h = dataSet s h"
    using notin by (auto simp: d ds)
  have setb: "set (butlast (data s)) = set (data s) - {?h}"
  proof -
    have "set (data s) = set (butlast (data s)) \<union> {?h}"
      by (subst split) simp
    with notin show ?thesis by auto
  qed
  have cons: "consistent s'"
    using dist dom setb by (auto simp: consistent_def d ds distinct_butlast)
  have old: "\<forall>a < length (heap s). obj_at (heap s') a = obj_at (heap s) a"
    by (simp add: hp obj_at_append_old)
  from d ds others cons sc p ap old show ?thesis by blast
qed

theorem removeItem_frame_witness:
  "\<exists>s s'. exec sample_env [Run ''custom'' (VStr ''A'') DMissing,
                           Run ''custom'' (VStr ''B'') DMissing] sample_start = Inr s
     \<and> removeItem s = Inr s' \<and> data s \<noteq> [] \<and> last (data s) \<noteq> [] \<and> consistent s
     \<and> data s = [''B'', ''A''] \<and> data s' = [''B''] \<and> consistent s' \<and> pen s' = VRef 0"
proof -
  obtain s where s: "exec sample_env [Run ''custom'' (VStr ''A'') DMissing,
                           Run ''custom'' (VStr ''B'') DMissing] sample_start = Inr s"
    by (simp add: eval_defs dur_defs)
  then have d: "data s = [''B'', ''A'']" and p: "pen s = VRef 0"
    and m: "dom (dataSet s) = {''A'', ''B''}"
    by (auto simp: eval_defs dur_defs split: if_splits)
  from d m have c: "consistent s" by (auto simp: consistent_def)
  obtain s' where r: "removeItem s = Inr s'"
    using s by (auto simp: eval_defs dur_defs)
  from d have 1: "data s \<noteq> []" and 2: "last (data s) \<noteq> []" by simp_all
  from removeItem_frame [OF r 1 2 c] d p s r c show ?thesis by auto
qed

subsection \<open>First in, first out\<close>




subsection \<open>The pen snapshot of an item\<close>

text \<open>
  C5 (as stated, fails). The snapshot is not a deep copy. With a pen state that keeps its
  position in an object of its own, assigning \<open>cncserver.pen.pos.x\<close> after the item has been
  added changes what the snapshot of the item shows at \<open>pos.x\<close>.
\<close>

theorem snapshot_shares_nested_objects:
  "(case run sample_env ''custom'' (VStr ''SM,100,0,0'') DMissing nested_start of
      Inr (r, s1) \<Rightarrow>
        (case (dataSet s1 (hd (data s1)), setPenIn ''pos'' ''x'' (VNum (Fin 7)) s1) of
           (Some it, Inr s2) \<Rightarrow>
              get_path (heap s1) (item_pen it) [''pos'', ''x''] = Inr (VNum (Fin 0))
            \<and> get_path (heap s2) (item_pen it) [''pos'', ''x''] = Inr (VNum (Fin 7))
         | _ \<Rightarrow> False)
    | Inl x \<Rightarrow> False)"
  by (simp add: eval_defs dur_defs nested_start_def setPenIn_def)

text \<open>
  C5 (amended). The snapshot is a copy of one level: a new object, other than the live pen
  state, that holds the property values the pen state had when the item was added. No later
  sequence of calls (further commands, removals, clearing, pausing) and of assignments to
  properties of the live pen state changes the properties of the snapshot.
\<close>

theorem snapshot_properties_unchanged:
  assumes "run e command dat duration s = Inr (True, s1)"
    and "valid_ref (heap s) (pen s)"
    and "exec e ops s1 = Inr s2"
  shows "\<exists>it. dataSet s1 (hd (data s1)) = Some it
           \<and> item_pen it \<noteq> pen s
           \<and> props_of (heap s1) (item_pen it) = props_of (heap s) (pen s)
           \<and> props_of (heap s2) (item_pen it) = props_of (heap s) (pen s)"
proof -
  from run_snapshot [OF assms(1,2)] obtain it a where
    it: "dataSet s1 (hd (data s1)) = Some it" and a: "item_pen it = VRef a"
    and lt: "a < length (heap s1)" and ne: "pen s1 \<noteq> VRef a" and ne0: "pen s \<noteq> VRef a"
    and ob: "obj_at (heap s1) a = props_of (heap s) (pen s)"
    by blast
  from exec_keeps_object [OF assms(3) lt ne] ob
  have "obj_at (heap s2) a = props_of (heap s) (pen s)" by simp
  with it a ne0 ob show ?thesis by (auto simp: props_of_def)
qed

theorem snapshot_properties_unchanged_witness:
  "\<exists>s1 s2. run sample_env ''custom'' (VStr ''A'') DMissing sample_start = Inr (True, s1)
     \<and> valid_ref (heap sample_start) (pen sample_start)
     \<and> exec sample_env [SetPen ''x'' (VNum (Fin 7)), Run ''custom'' (VStr ''B'') DMissing] s1
         = Inr s2
     \<and> props_of (heap s2) (pen s2) ''x'' = Some (VNum (Fin 7))
     \<and> (\<exists>it. dataSet s1 (hd (data s1)) = Some it
            \<and> props_of (heap s2) (item_pen it) = sample_pen)"
proof -
  obtain s1 where r: "run sample_env ''custom'' (VStr ''A'') DMissing sample_start = Inr (True, s1)"
    by (simp add: eval_defs dur_defs)
  have v: "valid_ref (heap sample_start) (pen sample_start)"
    by (simp add: valid_ref_def sample_start_def initial_def)
  obtain s2 where x: "exec sample_env [SetPen ''x'' (VNum (Fin 7)),
        Run ''custom'' (VStr ''B'') DMissing] s1 = Inr s2"
    using r by (auto simp: eval_defs dur_defs)
  have p: "props_of (heap s2) (pen s2) ''x'' = Some (VNum (Fin 7))"
    using r x by (auto simp: eval_defs dur_defs)
  have q: "props_of (heap sample_start) (pen sample_start) = sample_pen"
    by (simp add: props_of_def obj_at_def sample_start_def initial_def)
  from snapshot_properties_unchanged [OF r v x] r v x p q show ?thesis by auto
qed

subsection \<open>The confirmed pen state after a removal\<close>




subsection \<open>Removing an item whose entry is missing\<close>

text \<open>
  C8 (the code at the failing input). Running the same command twice from the same pen state
  lists one hash twice under one entry; the first removal deletes the entry, and the second
  removal, whose hash is in the order array and has no entry in the id map, throws a
  \<open>TypeError\<close> instead of reporting.
\<close>

theorem removeItem_desync_throws:
  "(case exec sample_env [Run ''custom'' (VStr ''SM,100,0,0'') (DNum (Fin 100)),
                          Run ''custom'' (VStr ''SM,100,0,0'') (DNum (Fin 100)),
                          RemoveItem] sample_start of
      Inr s \<Rightarrow> data s = [''SM,100,0,0''] \<and> dataSet s ''SM,100,0,0'' = None
               \<and> map_sum fst data (removeItem s) = Inl TypeError
    | Inl x \<Rightarrow> False)"
  by (simp add: eval_defs dur_defs)

end
